theory Spec2Isabelle
  imports Main "HOL-Library.AList" "HOL-Library.Sublist"
begin

section \<open>The destinations service: data model\<close>

text \<open>
  The Go package \<open>destinations\<close> keeps one \<open>Unit\<close> per configured destination and three
  maps keyed by token id that the request path reads.  The model follows the source
  file function by function.

  \<^item> Go maps are association lists with distinct keys (\<open>map_of\<close> reads them,
    \<open>AList.update\<close> and \<open>AList.delete\<close> write them, \<open>[]\<close> is the map of length 0).  The
    order of a list stands for the order in which a \<open>range\<close> loop happens to visit the
    map; theorems are stated for every list, hence for every order.
  \<^item> Pointers and interface values (queues, storages, loggers) are handles: natural
    numbers handed out by an allocation counter, so that "the same instance" is
    equality of handles.  Every \<open>Close()\<close> call is appended to the log \<open>closed\<close>.
  \<^item> The embedded \<open>sync.RWMutex\<close> is the flag \<open>locked\<close> (the write lock is held by the
    reconciling goroutine); a write to one of the five structures while the flag is
    down is recorded in \<open>unguarded\<close>.
  \<^item> A nil pointer dereference is the error value \<open>NilPointerDereference\<close>.
  \<^item> The package-level status flag \<open>StatusInstance.Reloading\<close> and all logging are left out.
\<close>

type_synonym handle = nat

record DestinationConfig =
  Type :: string
  Mode :: string
  OnlyTokens :: "string list"
  Staged :: bool
  Rest :: string

text \<open>\<open>Rest\<close> stands for the adapter settings of \<open>storages.DestinationConfig\<close> that this
  package never reads.\<close>

definition StreamMode :: string where
  "StreamMode = ''stream''"

record Unit =
  eventQueue :: "handle option"
  storage :: handle
  tokenIDs :: "string list"
  hash :: string

record LoggerUsage =
  logger :: handle
  usage :: int

type_synonym 'a tokenized = "(string \<times> (string \<times> 'a) list) list"

datatype guarded =
  UnitsByName | LoggersUsageByTokenID | ConsumersByTokenID | StoragesByTokenID
  | DestinationsIDByTokenID

record Service =
  unitsByName :: "(string \<times> Unit) list"
  loggersUsageByTokenID :: "(string \<times> LoggerUsage) list"
  consumersByTokenID :: "handle tokenized"
  storagesByTokenID :: "handle tokenized"
  destinationsIDByTokenID :: "bool tokenized"
  locked :: bool
  nextHandle :: handle
  closed :: "handle list"
  unguarded :: "guarded list"

datatype error = NilPointerDereference | ReloadSecEmpty | UnknownDestinationSource

text \<open>
  The collaborators of the service.  \<open>GetAllIDsByToken\<close> and \<open>GetAllTokenIDs\<close> are the
  authorization service, \<open>factorySucceeds\<close> says whether \<open>storageFactory.Create\<close> returns a
  nil error, \<open>getHash\<close>, \<open>parseFromBytes\<close> and \<open>Unmarshal\<close> are the helpers of the same
  names (\<open>None\<close> is a non-nil error).  None of them is defined in the source at hand, so
  they are parameters.
\<close>

record World =
  GetAllIDsByToken :: "string list \<Rightarrow> string list"
  GetAllTokenIDs :: "string list"
  getHash :: "string \<Rightarrow> DestinationConfig \<Rightarrow> string"
  factorySucceeds :: "string \<Rightarrow> DestinationConfig \<Rightarrow> bool"
  parseFromBytes :: "string \<Rightarrow> (string \<times> DestinationConfig) list option"
  Unmarshal :: "string \<Rightarrow> (string \<times> DestinationConfig) list option"

subsection \<open>The mutex and the tokenized collections\<close>

definition Lock :: "Service \<Rightarrow> Service" where
  "Lock s = s\<lparr>locked := True\<rparr>"

definition Unlock :: "Service \<Rightarrow> Service" where
  "Unlock s = s\<lparr>locked := False\<rparr>"

definition touch :: "guarded \<Rightarrow> Service \<Rightarrow> Service" where
  "touch g s = (if locked s then s else s\<lparr>unguarded := unguarded s @ [g]\<rparr>)"

definition inner :: "'a tokenized \<Rightarrow> string \<Rightarrow> (string \<times> 'a) list" where
  "inner m tokenID = (case map_of m tokenID of None \<Rightarrow> [] | Some i \<Rightarrow> i)"

text \<open>An inner map that was changed in place: the outer entry goes when the inner map
  has length 0 (\<open>delete\<close> on a missing key does nothing).\<close>

definition storeInner :: "string \<Rightarrow> (string \<times> 'a) list \<Rightarrow> 'a tokenized \<Rightarrow> 'a tokenized" where
  "storeInner tokenID i m = (if i = [] then AList.delete tokenID m else AList.update tokenID i m)"

text \<open>The \<open>if ok { delete(old, name); if len(old) == 0 { delete(...) } }\<close> blocks of \<open>remove\<close>.\<close>

definition dropKey :: "string \<Rightarrow> string \<Rightarrow> 'a tokenized \<Rightarrow> 'a tokenized" where
  "dropKey tokenID name m =
     (case map_of m tokenID of
        None \<Rightarrow> m
      | Some old \<Rightarrow> storeInner tokenID (AList.delete name old) m)"

text \<open>
  Modelled from the spec: the methods \<open>Add\<close> and \<open>AddAll\<close> of \<open>TokenizedConsumers\<close>,
  \<open>TokenizedStorages\<close> and \<open>TokenizedIDs\<close> are not in the source at hand.  The spec has the
  maps as token -> name -> value and the publication as "merge, not replace ... an additive
  merge of this cycle's new/recreated entries".
\<close>

definition Add :: "string \<Rightarrow> string \<Rightarrow> 'a \<Rightarrow> 'a tokenized \<Rightarrow> 'a tokenized" where
  "Add tokenID name v m = AList.update tokenID (AList.update name v (inner m tokenID)) m"

definition AddAll :: "'a tokenized \<Rightarrow> 'a tokenized \<Rightarrow> 'a tokenized" where
  "AddAll other m =
     fold (\<lambda>(tokenID, vs) acc. fold (\<lambda>(name, v) acc'. Add tokenID name v acc') vs acc) other m"

subsection \<open>Lookups\<close>

definition GetConsumers :: "Service \<Rightarrow> string \<Rightarrow> handle list" where
  "GetConsumers s tokenID = map snd (inner (consumersByTokenID s) tokenID)"

definition GetStorageByID :: "Service \<Rightarrow> string \<Rightarrow> handle option \<times> bool" where
  "GetStorageByID s ident =
     (case map_of (unitsByName s) ident of
        None \<Rightarrow> (None, False)
      | Some unit \<Rightarrow> (Some (storage unit), True))"

definition GetStorages :: "Service \<Rightarrow> string \<Rightarrow> handle list" where
  "GetStorages s tokenID = map snd (inner (storagesByTokenID s) tokenID)"

definition GetDestinationIDs :: "Service \<Rightarrow> string \<Rightarrow> (string \<times> bool) list" where
  "GetDestinationIDs s tokenID =
     map (\<lambda>(ident, _). (ident, True)) (inner (destinationsIDByTokenID s) tokenID)"

subsection \<open>remove\<close>

text \<open>The consumer part of one round of the loop over \<open>unit.tokenIDs\<close>.  With a queue the
  entry under the destination's name goes.  Without one the logger usage of the token is
  read and decremented (a missing entry is a nil pointer), and at 0 the consumer entry
  under the token, then the registry entry go and the logger is closed.\<close>

definition removeConsumer :: "string \<Rightarrow> Unit \<Rightarrow> string \<Rightarrow> Service \<Rightarrow> error + Service" where
  "removeConsumer name unit tokenID s =
     (let oldConsumers = inner (consumersByTokenID s) tokenID in
      if eventQueue unit \<noteq> None then
        Inr (touch ConsumersByTokenID
          (s\<lparr>consumersByTokenID :=
               storeInner tokenID (AList.delete name oldConsumers) (consumersByTokenID s)\<rparr>))
      else
        (case map_of (loggersUsageByTokenID s) tokenID of
           None \<Rightarrow> Inl NilPointerDereference
         | Some loggerUsage \<Rightarrow>
             if usage loggerUsage - 1 = 0 then
               Inr (touch LoggersUsageByTokenID (touch ConsumersByTokenID
                 (s\<lparr>consumersByTokenID :=
                      storeInner tokenID (AList.delete tokenID oldConsumers) (consumersByTokenID s),
                    loggersUsageByTokenID := AList.delete tokenID (loggersUsageByTokenID s),
                    closed := closed s @ [logger loggerUsage]\<rparr>)))
             else
               Inr (touch LoggersUsageByTokenID (touch ConsumersByTokenID
                 (s\<lparr>consumersByTokenID :=
                      storeInner tokenID oldConsumers (consumersByTokenID s),
                    loggersUsageByTokenID :=
                      AList.update tokenID (loggerUsage\<lparr>usage := usage loggerUsage - 1\<rparr>)
                        (loggersUsageByTokenID s)\<rparr>)))))"

definition removeStorageAndID :: "string \<Rightarrow> string \<Rightarrow> Service \<Rightarrow> Service" where
  "removeStorageAndID name tokenID s =
     touch DestinationsIDByTokenID (touch StoragesByTokenID
       (s\<lparr>storagesByTokenID := dropKey tokenID name (storagesByTokenID s),
          destinationsIDByTokenID := dropKey tokenID name (destinationsIDByTokenID s)\<rparr>))"

fun removeTokens :: "string \<Rightarrow> Unit \<Rightarrow> string list \<Rightarrow> Service \<Rightarrow> error + Service" where
  "removeTokens name unit [] s = Inr s"
| "removeTokens name unit (tokenID # rest) s =
     (case removeConsumer name unit tokenID s of
        Inl e \<Rightarrow> Inl e
      | Inr s' \<Rightarrow> removeTokens name unit rest (removeStorageAndID name tokenID s'))"

text \<open>
  Modelled from the spec: \<open>Unit.Close\<close> is not in the source at hand; a unit owns its queue
  and its storage ("closes the unit"), so closing it closes both.  Its error is only logged.
\<close>

definition closeUnit :: "Unit \<Rightarrow> Service \<Rightarrow> Service" where
  "closeUnit unit s =
     s\<lparr>closed := closed s @ (case eventQueue unit of None \<Rightarrow> [] | Some q \<Rightarrow> [q]) @ [storage unit]\<rparr>"

definition remove :: "string \<Rightarrow> Unit \<Rightarrow> Service \<Rightarrow> error + Service" where
  "remove name unit s =
     (case removeTokens name unit (tokenIDs unit) s of
        Inl e \<Rightarrow> Inl e
      | Inr s' \<Rightarrow>
          Inr (touch UnitsByName
            ((closeUnit unit s')\<lparr>unitsByName := AList.delete name (unitsByName s')\<rparr>)))"

subsection \<open>init\<close>

record NewMaps =
  newConsumers :: "handle tokenized"
  newStorages :: "handle tokenized"
  newIDs :: "bool tokenized"

definition toDelete :: "(string \<times> DestinationConfig) list \<Rightarrow> Service \<Rightarrow> (string \<times> Unit) list" where
  "toDelete dc s = filter (\<lambda>(name, unit). map_of dc name = None) (unitsByName s)"

fun removeAll_units :: "(string \<times> Unit) list \<Rightarrow> Service \<Rightarrow> error + Service" where
  "removeAll_units [] s = Inr s"
| "removeAll_units ((name, unit) # rest) s =
     (case remove name unit s of Inl e \<Rightarrow> Inl e | Inr s' \<Rightarrow> removeAll_units rest s')"

definition deletionPass :: "(string \<times> DestinationConfig) list \<Rightarrow> Service \<Rightarrow> error + Service" where
  "deletionPass dc s =
     (if toDelete dc s \<noteq> [] then
        (case removeAll_units (toDelete dc s) (Lock s) of
           Inl e \<Rightarrow> Inl e
         | Inr s' \<Rightarrow> Inr (Unlock s'))
      else Inr s)"

definition resolveTokens :: "World \<Rightarrow> DestinationConfig \<Rightarrow> DestinationConfig" where
  "resolveTokens w d =
     (if OnlyTokens d \<noteq> [] then d\<lparr>OnlyTokens := GetAllIDsByToken w (OnlyTokens d)\<rparr>
      else d\<lparr>OnlyTokens := GetAllTokenIDs w\<rparr>)"

text \<open>One round of the loop over the resolved token ids (lines 240 to 266); \<open>q\<close> and \<open>st\<close> are
  the queue and the storage that the factory returned.\<close>

definition registerToken ::
  "string \<Rightarrow> DestinationConfig \<Rightarrow> handle \<Rightarrow> handle \<Rightarrow> string \<Rightarrow> Service \<times> NewMaps \<Rightarrow> Service \<times> NewMaps" where
  "registerToken name destinationConfig q st tokenID sn =
     (let s = fst sn; n = snd sn in
      if Staged destinationConfig then (s, n)
      else
        let n1 = n\<lparr>newIDs := Add tokenID name True (newIDs n)\<rparr> in
        if Mode destinationConfig = StreamMode then
          (s, n1\<lparr>newConsumers := Add tokenID name q (newConsumers n1)\<rparr>)
        else
          let s1 = (case map_of (loggersUsageByTokenID s) tokenID of
                      Some _ \<Rightarrow> s
                    | None \<Rightarrow>
                        touch LoggersUsageByTokenID
                          (s\<lparr>loggersUsageByTokenID :=
                               AList.update tokenID \<lparr>logger = nextHandle s, usage = 0\<rparr>
                                 (loggersUsageByTokenID s),
                             nextHandle := nextHandle s + 1\<rparr>))
          in
          (case map_of (loggersUsageByTokenID s1) tokenID of
             None \<Rightarrow> (s1, n1\<lparr>newStorages := Add tokenID name st (newStorages n1)\<rparr>)
           | Some loggerUsage \<Rightarrow>
               (touch LoggersUsageByTokenID
                  (s1\<lparr>loggersUsageByTokenID :=
                        AList.update tokenID (loggerUsage\<lparr>usage := usage loggerUsage + 1\<rparr>)
                          (loggersUsageByTokenID s1)\<rparr>),
                n1\<lparr>newConsumers := Add tokenID tokenID (logger loggerUsage) (newConsumers n1),
                   newStorages := Add tokenID name st (newStorages n1)\<rparr>)))"

text \<open>
  Modelled from the spec: \<open>storageFactory.Create\<close> is not in the source at hand.  The spec
  gives its outputs as "a storage handle and, for stream mode, a queue handle", so a
  successful call yields a fresh storage, and a fresh queue exactly in stream mode.
\<close>

definition newUnit :: "DestinationConfig \<Rightarrow> string \<Rightarrow> handle \<Rightarrow> Unit" where
  "newUnit destinationConfig h st =
     \<lparr>eventQueue = (if Mode destinationConfig = StreamMode then Some (st + 1) else None),
      storage = st, tokenIDs = OnlyTokens destinationConfig, hash = h\<rparr>"

definition createNew ::
  "World \<Rightarrow> string \<Rightarrow> DestinationConfig \<Rightarrow> string \<Rightarrow> Service \<times> NewMaps \<Rightarrow> Service \<times> NewMaps" where
  "createNew w name destinationConfig h sn =
     (let s = fst sn; n = snd sn in
      if OnlyTokens destinationConfig = [] then (s, n)
      else if \<not> factorySucceeds w name destinationConfig then (s, n)
      else
        let st = nextHandle s; q = nextHandle s + 1;
            s1 = touch UnitsByName
                   (s\<lparr>unitsByName :=
                        AList.update name (newUnit destinationConfig h st) (unitsByName s),
                      nextHandle := nextHandle s + 2\<rparr>)
        in fold (registerToken name destinationConfig q st) (OnlyTokens destinationConfig) (s1, n))"

text \<open>The body of the loop over the new snapshot (lines 185 to 267).\<close>

definition createOrRecreate ::
  "World \<Rightarrow> string \<times> DestinationConfig \<Rightarrow> Service \<times> NewMaps \<Rightarrow> error + Service \<times> NewMaps" where
  "createOrRecreate w nd sn =
     (let name = fst nd; destinationConfig = resolveTokens w (snd nd);
          h = getHash w name destinationConfig; s = fst sn; n = snd sn in
      case map_of (unitsByName s) name of
        None \<Rightarrow> Inr (createNew w name destinationConfig h (s, n))
      | Some unit \<Rightarrow>
          if hash unit = h then Inr (s, n)
          else
            (case remove name unit (Lock s) of
               Inl e \<Rightarrow> Inl e
             | Inr s' \<Rightarrow> Inr (createNew w name destinationConfig h (Unlock s', n))))"

fun createPass ::
  "World \<Rightarrow> (string \<times> DestinationConfig) list \<Rightarrow> Service \<times> NewMaps \<Rightarrow> error + Service \<times> NewMaps" where
  "createPass w [] sn = Inr sn"
| "createPass w (nd # rest) sn =
     (case createOrRecreate w nd sn of Inl e \<Rightarrow> Inl e | Inr sn' \<Rightarrow> createPass w rest sn')"

definition publish :: "NewMaps \<Rightarrow> Service \<Rightarrow> Service" where
  "publish n s =
     Unlock (touch DestinationsIDByTokenID (touch StoragesByTokenID (touch ConsumersByTokenID
       ((Lock s)\<lparr>consumersByTokenID := AddAll (newConsumers n) (consumersByTokenID s),
                 storagesByTokenID := AddAll (newStorages n) (storagesByTokenID s),
                 destinationsIDByTokenID := AddAll (newIDs n) (destinationsIDByTokenID s)\<rparr>))))"

definition emptyMaps :: NewMaps where
  "emptyMaps = \<lparr>newConsumers = [], newStorages = [], newIDs = []\<rparr>"

text \<open>\<open>init\<close>; the snapshot \<open>dc\<close> is a Go map, so its names are distinct.\<close>

definition init :: "World \<Rightarrow> (string \<times> DestinationConfig) list \<Rightarrow> Service \<Rightarrow> error + Service" where
  "init w dc s =
     (case deletionPass dc s of
        Inl e \<Rightarrow> Inl e
      | Inr s1 \<Rightarrow>
          (case createPass w dc (s1, emptyMaps) of
             Inl e \<Rightarrow> Inl e
           | Inr sn \<Rightarrow> Inr (publish (snd sn) (fst sn))))"

subsection \<open>updateDestinations and NewService\<close>

definition updateDestinations :: "World \<Rightarrow> string \<Rightarrow> Service \<Rightarrow> error + Service" where
  "updateDestinations w payload s =
     (case parseFromBytes w payload of
        None \<Rightarrow> Inr s
      | Some dc \<Rightarrow> init w dc s)"

definition emptyService :: Service where
  "emptyService =
     \<lparr>unitsByName = [], loggersUsageByTokenID = [], consumersByTokenID = [],
      storagesByTokenID = [], destinationsIDByTokenID = [], locked = False,
      nextHandle = 0, closed = [], unguarded = []\<rparr>"

text \<open>
  \<open>NewService\<close>: \<open>Inl\<close> is a nil service with an error (or a panic of \<open>init\<close>), \<open>Inr\<close> a
  service with a nil error.  \<open>reloadSec\<close> is the value of \<open>server.destinations_reload_sec\<close>,
  \<open>destinations\<close> the viper subtree (\<open>None\<close> for nil).  With a URL or a file the service is
  handed to \<open>resources.Watch\<close>, whose reloads are later calls of \<open>updateDestinations\<close>.
\<close>

definition NewService :: "World \<Rightarrow> int \<Rightarrow> string option \<Rightarrow> string \<Rightarrow> error + Service" where
  "NewService w reloadSec destinations destinationsSource =
     (if reloadSec = 0 then Inl ReloadSecEmpty
      else
        (case destinations of
           Some d \<Rightarrow>
             (case Unmarshal w d of
                None \<Rightarrow> Inr emptyService
              | Some dc \<Rightarrow> init w dc emptyService)
         | None \<Rightarrow>
             if destinationsSource \<noteq> [] then
               if prefix ''http://'' destinationsSource \<or> prefix ''https://'' destinationsSource
               then Inr emptyService
               else if sublist ''file://'' destinationsSource \<or> prefix ''/'' destinationsSource
               then Inr emptyService
               else if prefix ''{'' destinationsSource \<and> suffix ''}'' destinationsSource
               then updateDestinations w destinationsSource emptyService
               else Inl UnknownDestinationSource
             else Inr emptyService))"

subsection \<open>Sequences of reloads\<close>

text \<open>The watcher calls \<open>init\<close> again and again, each time with the snapshot it fetched
  and with the collaborators as they are at that moment.\<close>

fun cycles :: "(World \<times> (string \<times> DestinationConfig) list) list \<Rightarrow> Service \<Rightarrow> error + Service" where
  "cycles [] s = Inr s"
| "cycles ((w, dc) # rest) s =
     (case init w dc s of Inl e \<Rightarrow> Inl e | Inr s' \<Rightarrow> cycles rest s')"

subsection \<open>A concrete world\<close>

text \<open>A serialization of a name and a config that can be read back, as a hash without
  collisions; tokens resolve to themselves and every storage can be built.\<close>

fun encString :: "string \<Rightarrow> string" where
  "encString [] = ''.''"
| "encString (c # cs) = CHR '','' # c # encString cs"

fun encStrings :: "string list \<Rightarrow> string" where
  "encStrings [] = ''.''"
| "encStrings (x # xs) = CHR '','' # encString x @ encStrings xs"

definition serialize :: "string \<Rightarrow> DestinationConfig \<Rightarrow> string" where
  "serialize name d =
     encString name @ encString (Type d) @ encString (Mode d) @ encStrings (OnlyTokens d)
       @ encString (if Staged d then ''true'' else ''false'') @ encString (Rest d)"

definition exampleWorld :: World where
  "exampleWorld =
     \<lparr>GetAllIDsByToken = (\<lambda>tokens. tokens), GetAllTokenIDs = [], getHash = serialize,
      factorySucceeds = (\<lambda>name d. True), parseFromBytes = (\<lambda>payload. None),
      Unmarshal = (\<lambda>config. None)\<rparr>"


definition destination :: "string \<Rightarrow> string list \<Rightarrow> bool \<Rightarrow> DestinationConfig" where
  "destination mode tokens staged =
     \<lparr>Type = ''postgres'', Mode = mode, OnlyTokens = tokens, Staged = staged, Rest = ''''\<rparr>"

subsection \<open>Invariant of the logger registry\<close>

definition usagesPositive :: "Service \<Rightarrow> bool" where
  "usagesPositive s = list_all (\<lambda>(tokenID, loggerUsage). 0 < usage loggerUsage) (loggersUsageByTokenID s)"

subsection \<open>The service after two batch destinations were created on one token\<close>

definition twoBatch :: "World \<Rightarrow> string \<Rightarrow> DestinationConfig \<Rightarrow> string \<Rightarrow> DestinationConfig \<Rightarrow> string \<Rightarrow> Service" where
 "twoBatch w a da b db T = \<lparr>unitsByName = [(a, newUnit (resolveTokens w da) (getHash w a (resolveTokens w da)) 0),
     (b, newUnit (resolveTokens w db) (getHash w b (resolveTokens w db)) 3)],
   loggersUsageByTokenID = [(T, \<lparr>logger = 2, usage = 2\<rparr>)],
   consumersByTokenID = [(T, [(T, 2)])],
   storagesByTokenID = [(T, [(a, 0), (b, 3)])],
   destinationsIDByTokenID = [(T, [(a, True), (b, True)])],
   locked = False, nextHandle = 5, closed = [],
   unguarded = [UnitsByName, LoggersUsageByTokenID, LoggersUsageByTokenID, UnitsByName, LoggersUsageByTokenID]\<rparr>"

subsection \<open>Destinations that a reload has nothing to do for\<close>




text \<open>The service after one reload with a batch destination \<open>A\<close> and a staged batch
  destination \<open>S\<close>, both on token \<open>T\<close>.\<close>

definition stagedBesideBatch :: Service where
  "stagedBesideBatch =
     \<lparr>unitsByName =
        [(''A'', newUnit (destination ''batch'' [''T''] False)
                  (serialize ''A'' (destination ''batch'' [''T''] False)) 0),
         (''S'', newUnit (destination ''batch'' [''T''] True)
                  (serialize ''S'' (destination ''batch'' [''T''] True)) 3)],
      loggersUsageByTokenID = [(''T'', \<lparr>logger = 2, usage = 1\<rparr>)],
      consumersByTokenID = [(''T'', [(''T'', 2)])],
      storagesByTokenID = [(''T'', [(''A'', 0)])],
      destinationsIDByTokenID = [(''T'', [(''A'', True)])],
      locked = False, nextHandle = 5, closed = [],
      unguarded = [UnitsByName, LoggersUsageByTokenID, LoggersUsageByTokenID, UnitsByName]\<rparr>"





section \<open>What each step does to the fields of the service\<close>


lemma touch_fields [simp]:
  "unitsByName (touch g s) = unitsByName s"
  "loggersUsageByTokenID (touch g s) = loggersUsageByTokenID s"
  "consumersByTokenID (touch g s) = consumersByTokenID s"
  "storagesByTokenID (touch g s) = storagesByTokenID s"
  "destinationsIDByTokenID (touch g s) = destinationsIDByTokenID s"
  "locked (touch g s) = locked s"
  "nextHandle (touch g s) = nextHandle s"
  "closed (touch g s) = closed s"
  by (simp_all add: touch_def)

lemma touch_locked [simp]: "locked s \<Longrightarrow> touch g s = s"
  by (simp add: touch_def)

lemma Lock_fields [simp]:
  "unitsByName (Lock s) = unitsByName s"
  "loggersUsageByTokenID (Lock s) = loggersUsageByTokenID s"
  "consumersByTokenID (Lock s) = consumersByTokenID s"
  "storagesByTokenID (Lock s) = storagesByTokenID s"
  "destinationsIDByTokenID (Lock s) = destinationsIDByTokenID s"
  "locked (Lock s) = True"
  "nextHandle (Lock s) = nextHandle s"
  "closed (Lock s) = closed s"
  "unguarded (Lock s) = unguarded s"
  by (simp_all add: Lock_def)

lemma Unlock_fields [simp]:
  "unitsByName (Unlock s) = unitsByName s"
  "loggersUsageByTokenID (Unlock s) = loggersUsageByTokenID s"
  "consumersByTokenID (Unlock s) = consumersByTokenID s"
  "storagesByTokenID (Unlock s) = storagesByTokenID s"
  "destinationsIDByTokenID (Unlock s) = destinationsIDByTokenID s"
  "locked (Unlock s) = False"
  "nextHandle (Unlock s) = nextHandle s"
  "closed (Unlock s) = closed s"
  "unguarded (Unlock s) = unguarded s"
  by (simp_all add: Unlock_def)


lemma removeStorageAndID_fields [simp]:
  "unitsByName (removeStorageAndID name tokenID s) = unitsByName s"
  "loggersUsageByTokenID (removeStorageAndID name tokenID s) = loggersUsageByTokenID s"
  "consumersByTokenID (removeStorageAndID name tokenID s) = consumersByTokenID s"
  "locked (removeStorageAndID name tokenID s) = locked s"
  "nextHandle (removeStorageAndID name tokenID s) = nextHandle s"
  "closed (removeStorageAndID name tokenID s) = closed s"
  by (simp_all add: removeStorageAndID_def)






lemma createNew_skip:
  "OnlyTokens cfg = [] \<or> \<not> factorySucceeds w name cfg \<Longrightarrow> createNew w name cfg h sn = sn"
  by (auto simp: createNew_def Let_def)





lemma createOrRecreate_cases:
  assumes "createOrRecreate w (name, d) sn = Inr sn'"
  obtains
    (unchanged) unit where "map_of (unitsByName (fst sn)) name = Some unit"
      and "hash unit = getHash w name (resolveTokens w d)" and "sn' = sn"
  | (created) "map_of (unitsByName (fst sn)) name = None"
      and "sn' = createNew w name (resolveTokens w d) (getHash w name (resolveTokens w d)) sn"
  | (recreated) unit s' where "map_of (unitsByName (fst sn)) name = Some unit"
      and "hash unit \<noteq> getHash w name (resolveTokens w d)"
      and "remove name unit (Lock (fst sn)) = Inr s'"
      and "sn' = createNew w name (resolveTokens w d) (getHash w name (resolveTokens w d))
                   (Unlock s', snd sn)"
proof (cases "map_of (unitsByName (fst sn)) name")
  case None
  with assms have "sn' = createNew w name (resolveTokens w d) (getHash w name (resolveTokens w d)) sn"
    by (auto simp: createOrRecreate_def Let_def)
  with None show ?thesis by (rule created)
next
  case (Some unit)
  show ?thesis
  proof (cases "hash unit = getHash w name (resolveTokens w d)")
    case True
    with assms Some have "sn' = sn" by (auto simp: createOrRecreate_def Let_def)
    with Some True show ?thesis by (rule unchanged)
  next
    case False
    with assms Some obtain s' where "remove name unit (Lock (fst sn)) = Inr s'"
      and "sn' = createNew w name (resolveTokens w d) (getHash w name (resolveTokens w d))
                   (Unlock s', snd sn)"
      by (cases "remove name unit (Lock (fst sn))") (auto simp: createOrRecreate_def Let_def)
    with Some False show ?thesis by (rule recreated)
  qed
qed






section \<open>The logger registry never holds a usage below 1\<close>


lemma set_update_subset: "set (AList.update k v al) \<subseteq> insert (k, v) (set al)"
  by (induction al) auto

lemma set_delete_subset: "set (AList.delete k al) \<subseteq> set al"
  by (auto simp: AList.delete_eq)

lemma usagesPositive_iff:
  "usagesPositive s \<longleftrightarrow> (\<forall>t lu. (t, lu) \<in> set (loggersUsageByTokenID s) \<longrightarrow> 0 < usage lu)"
  by (auto simp: usagesPositive_def list_all_iff)

lemma usagesPositive_cong:
  "loggersUsageByTokenID s' = loggersUsageByTokenID s \<Longrightarrow> usagesPositive s' = usagesPositive s"
  by (simp add: usagesPositive_def)

lemma usagesPositive_update:
  assumes "usagesPositive s" and "0 < usage lu"
    and "loggersUsageByTokenID s' = AList.update t lu (loggersUsageByTokenID s)"
  shows "usagesPositive s'"
  using assms set_update_subset [of t lu "loggersUsageByTokenID s"]
  unfolding usagesPositive_iff by auto

lemma usagesPositive_delete:
  assumes "usagesPositive s"
    and "loggersUsageByTokenID s' = AList.delete t (loggersUsageByTokenID s)"
  shows "usagesPositive s'"
  using assms set_delete_subset [of t "loggersUsageByTokenID s"]
  unfolding usagesPositive_iff by auto

lemma removeConsumer_cases:
  assumes "removeConsumer name unit t s = Inr s'"
  obtains
    (queue) "eventQueue unit \<noteq> None"
      and "s' = touch ConsumersByTokenID
          (s\<lparr>consumersByTokenID :=
               storeInner t (AList.delete name (inner (consumersByTokenID s) t))
                 (consumersByTokenID s)\<rparr>)"
  | (last_user) lu where "eventQueue unit = None"
      and "map_of (loggersUsageByTokenID s) t = Some lu" and "usage lu - 1 = 0"
      and "s' = touch LoggersUsageByTokenID (touch ConsumersByTokenID
                 (s\<lparr>consumersByTokenID :=
                      storeInner t (AList.delete t (inner (consumersByTokenID s) t))
                        (consumersByTokenID s),
                    loggersUsageByTokenID := AList.delete t (loggersUsageByTokenID s),
                    closed := closed s @ [logger lu]\<rparr>))"
  | (shared) lu where "eventQueue unit = None"
      and "map_of (loggersUsageByTokenID s) t = Some lu" and "usage lu - 1 \<noteq> 0"
      and "s' = touch LoggersUsageByTokenID (touch ConsumersByTokenID
                 (s\<lparr>consumersByTokenID :=
                      storeInner t (inner (consumersByTokenID s) t) (consumersByTokenID s),
                    loggersUsageByTokenID :=
                      AList.update t (lu\<lparr>usage := usage lu - 1\<rparr>)
                        (loggersUsageByTokenID s)\<rparr>))"
proof (cases "eventQueue unit")
  case (Some q)
  with assms show ?thesis by (intro queue) (simp_all add: removeConsumer_def Let_def)
next
  case None
  show ?thesis
  proof (cases "map_of (loggersUsageByTokenID s) t")
    case no: None
    with assms None show ?thesis by (simp add: removeConsumer_def Let_def)
  next
    case (Some lu)
    show ?thesis
    proof (cases "usage lu - 1 = 0")
      case True
      with assms None Some show ?thesis
        by (intro last_user [of lu]) (simp_all add: removeConsumer_def Let_def)
    next
      case False
      with assms None Some show ?thesis
        by (intro shared [of lu]) (simp_all add: removeConsumer_def Let_def)
    qed
  qed
qed

lemma removeConsumer_usagesPositive:
  assumes "removeConsumer name unit t s = Inr s'" and "usagesPositive s"
  shows "usagesPositive s'"
  using assms(1)
proof (cases rule: removeConsumer_cases)
  case queue
  with assms(2) show ?thesis by (simp add: usagesPositive_def)
next
  case (last_user lu)
  from last_user(4) have "loggersUsageByTokenID s' = AList.delete t (loggersUsageByTokenID s)"
    by simp
  with assms(2) show ?thesis by (rule usagesPositive_delete)
next
  case (shared lu)
  from shared(2) have "(t, lu) \<in> set (loggersUsageByTokenID s)" by (rule map_of_SomeD)
  with assms(2) have "0 < usage lu" by (auto simp: usagesPositive_iff)
  with shared(3) have pos: "0 < usage (lu\<lparr>usage := usage lu - 1\<rparr>)" by simp
  from shared(4) have "loggersUsageByTokenID s'
      = AList.update t (lu\<lparr>usage := usage lu - 1\<rparr>) (loggersUsageByTokenID s)"
    by simp
  with assms(2) pos show ?thesis by (rule usagesPositive_update)
qed

lemma removeTokens_usagesPositive:
  assumes "removeTokens name unit ts s = Inr s'" and "usagesPositive s"
  shows "usagesPositive s'"
  using assms
proof (induction ts arbitrary: s)
  case Nil
  then show ?case by simp
next
  case (Cons t ts)
  then obtain s1 where s1: "removeConsumer name unit t s = Inr s1"
    and rest: "removeTokens name unit ts (removeStorageAndID name t s1) = Inr s'"
    by (auto split: sum.splits)
  from removeConsumer_usagesPositive [OF s1 Cons.prems(2)]
  have "usagesPositive (removeStorageAndID name t s1)"
    by (simp add: usagesPositive_def)
  with Cons.IH [OF rest] show ?case .
qed

lemma remove_usagesPositive:
  assumes "remove name unit s = Inr s'" and "usagesPositive s"
  shows "usagesPositive s'"
proof -
  from assms(1) obtain s1 where 1: "removeTokens name unit (tokenIDs unit) s = Inr s1"
    and 2: "loggersUsageByTokenID s' = loggersUsageByTokenID s1"
    by (auto simp: remove_def closeUnit_def split: sum.splits)
  from removeTokens_usagesPositive [OF 1 assms(2)] 2 show ?thesis
    by (simp add: usagesPositive_def)
qed

lemma removeAll_units_usagesPositive:
  assumes "removeAll_units xs s = Inr s'" and "usagesPositive s"
  shows "usagesPositive s'"
  using assms
proof (induction xs arbitrary: s)
  case Nil
  then show ?case by simp
next
  case (Cons x xs)
  obtain name unit where x: "x = (name, unit)" by (cases x)
  from Cons.prems(1) obtain s1 where 1: "remove name unit s = Inr s1"
    and 2: "removeAll_units xs s1 = Inr s'"
    by (auto simp: x split: sum.splits)
  from Cons.IH [OF 2 remove_usagesPositive [OF 1 Cons.prems(2)]] show ?case .
qed

lemma deletionPass_usagesPositive:
  assumes "deletionPass dc s = Inr s'" and "usagesPositive s"
  shows "usagesPositive s'"
proof (cases "toDelete dc s \<noteq> []")
  case True
  with assms(1) obtain s1 where 1: "removeAll_units (toDelete dc s) (Lock s) = Inr s1"
    and 2: "s' = Unlock s1"
    by (auto simp: deletionPass_def split: sum.splits)
  from assms(2) have "usagesPositive (Lock s)" by (simp add: usagesPositive_def)
  from removeAll_units_usagesPositive [OF 1 this] 2 show ?thesis
    by (simp add: usagesPositive_def)
next
  case False
  with assms show ?thesis by (simp add: deletionPass_def)
qed

lemma registerToken_usagesPositive:
  assumes "usagesPositive (fst sn)"
  shows "usagesPositive (fst (registerToken name cfg q st t sn))"
proof (cases "Staged cfg \<or> Mode cfg = StreamMode")
  case True
  then have "loggersUsageByTokenID (fst (registerToken name cfg q st t sn))
      = loggersUsageByTokenID (fst sn)"
    by (auto simp: registerToken_def Let_def)
  with assms show ?thesis by (simp add: usagesPositive_def)
next
  case False
  show ?thesis
  proof (cases "map_of (loggersUsageByTokenID (fst sn)) t")
    case None
    with False have "loggersUsageByTokenID (fst (registerToken name cfg q st t sn))
      = AList.update t \<lparr>logger = nextHandle (fst sn), usage = 1\<rparr> (loggersUsageByTokenID (fst sn))"
      by (simp add: registerToken_def Let_def update_conv')
    then show ?thesis by (rule usagesPositive_update [OF assms, rotated]) simp
  next
    case (Some lu)
    then have "(t, lu) \<in> set (loggersUsageByTokenID (fst sn))" by (rule map_of_SomeD)
    with assms have pos: "0 < usage lu" by (auto simp: usagesPositive_iff)
    from Some False have "loggersUsageByTokenID (fst (registerToken name cfg q st t sn))
      = AList.update t (lu\<lparr>usage := usage lu + 1\<rparr>) (loggersUsageByTokenID (fst sn))"
      by (simp add: registerToken_def Let_def)
    moreover from pos have "0 < usage (lu\<lparr>usage := usage lu + 1\<rparr>)" by simp
    ultimately show ?thesis using assms by (blast intro: usagesPositive_update)
  qed
qed

lemma registerTokens_usagesPositive:
  "usagesPositive (fst sn) \<Longrightarrow> usagesPositive (fst (fold (registerToken name cfg q st) ts sn))"
  by (induction ts arbitrary: sn) (simp_all add: registerToken_usagesPositive)

lemma createNew_unfold:
  assumes "OnlyTokens cfg \<noteq> []" and "factorySucceeds w name cfg"
  shows "createNew w name cfg h sn =
    fold (registerToken name cfg (nextHandle (fst sn) + 1) (nextHandle (fst sn))) (OnlyTokens cfg)
      (touch UnitsByName
         ((fst sn)\<lparr>unitsByName :=
              AList.update name (newUnit cfg h (nextHandle (fst sn))) (unitsByName (fst sn)),
            nextHandle := nextHandle (fst sn) + 2\<rparr>), snd sn)"
  using assms by (simp add: createNew_def Let_def)

lemma createNew_usagesPositive:
  assumes "usagesPositive (fst sn)"
  shows "usagesPositive (fst (createNew w name cfg h sn))"
proof (cases "OnlyTokens cfg = [] \<or> \<not> factorySucceeds w name cfg")
  case True
  with assms show ?thesis by (simp add: createNew_skip)
next
  case False
  then have a: "OnlyTokens cfg \<noteq> []" "factorySucceeds w name cfg" by auto
  have "usagesPositive (fst (touch UnitsByName
         ((fst sn)\<lparr>unitsByName :=
              AList.update name (newUnit cfg h (nextHandle (fst sn))) (unitsByName (fst sn)),
            nextHandle := nextHandle (fst sn) + 2\<rparr>), snd sn))"
    using assms by (simp add: usagesPositive_def)
  then show ?thesis
    unfolding createNew_unfold [OF a] by (rule registerTokens_usagesPositive)
qed

lemma createOrRecreate_usagesPositive:
  assumes "createOrRecreate w (name, d) sn = Inr sn'" and "usagesPositive (fst sn)"
  shows "usagesPositive (fst sn')"
  using assms(1)
proof (cases rule: createOrRecreate_cases)
  case (unchanged unit)
  with assms(2) show ?thesis by simp
next
  case created
  with assms(2) show ?thesis by (simp add: createNew_usagesPositive)
next
  case (recreated unit s')
  from assms(2) have "usagesPositive (Lock (fst sn))" by (simp add: usagesPositive_def)
  from remove_usagesPositive [OF recreated(3) this]
  have "usagesPositive (fst (Unlock s', snd sn))" by (simp add: usagesPositive_def)
  then show ?thesis unfolding recreated(4) by (rule createNew_usagesPositive)
qed

lemma createPass_usagesPositive:
  assumes "createPass w dc sn = Inr sn'" and "usagesPositive (fst sn)"
  shows "usagesPositive (fst sn')"
  using assms
proof (induction dc arbitrary: sn)
  case Nil
  then show ?case by simp
next
  case (Cons nd dc)
  obtain n d where nd: "nd = (n, d)" by (cases nd)
  from Cons.prems(1) obtain sn1 where 1: "createOrRecreate w (n, d) sn = Inr sn1"
    and 2: "createPass w dc sn1 = Inr sn'"
    by (auto simp: nd split: sum.splits)
  from Cons.IH [OF 2 createOrRecreate_usagesPositive [OF 1 Cons.prems(2)]] show ?case .
qed

lemma publish_fields [simp]:
  "unitsByName (publish n s) = unitsByName s"
  "loggersUsageByTokenID (publish n s) = loggersUsageByTokenID s"
  "locked (publish n s) = False"
  "nextHandle (publish n s) = nextHandle s"
  "closed (publish n s) = closed s"
  by (simp_all add: publish_def)

lemma init_steps:
  assumes "init w dc s = Inr s'"
  obtains s1 sn where "deletionPass dc s = Inr s1" and "createPass w dc (s1, emptyMaps) = Inr sn"
    and "s' = publish (snd sn) (fst sn)"
  using assms by (auto simp: init_def split: sum.splits)

lemma init_usagesPositive:
  assumes "init w dc s = Inr s'" and "usagesPositive s"
  shows "usagesPositive s'"
  using assms(1)
proof (rule init_steps)
  fix s1 sn
  assume 1: "deletionPass dc s = Inr s1" and 2: "createPass w dc (s1, emptyMaps) = Inr sn"
    and 3: "s' = publish (snd sn) (fst sn)"
  from deletionPass_usagesPositive [OF 1 assms(2)] have "usagesPositive (fst (s1, emptyMaps))"
    by simp
  from createPass_usagesPositive [OF 2 this] 3 show ?thesis
    by (simp add: usagesPositive_def)
qed

lemma cycles_usagesPositive:
  assumes "cycles cs s = Inr s'" and "usagesPositive s"
  shows "usagesPositive s'"
  using assms
proof (induction cs arbitrary: s)
  case Nil
  then show ?case by simp
next
  case (Cons c cs)
  obtain w dc where c: "c = (w, dc)" by (cases c)
  from Cons.prems(1) obtain s1 where 1: "init w dc s = Inr s1" and 2: "cycles cs s1 = Inr s'"
    by (auto simp: c split: sum.splits)
  from Cons.IH [OF 2 init_usagesPositive [OF 1 Cons.prems(2)]] show ?case .
qed

lemma removeConsumer_last_user:
  assumes "eventQueue unit = None" and "map_of (loggersUsageByTokenID s) t = Some lu"
    and "usage lu - 1 = 0"
  shows "\<exists>s'. removeConsumer name unit t s = Inr s'
    \<and> map_of (loggersUsageByTokenID s') t = None \<and> logger lu \<in> set (closed s')"
  using assms by (simp add: removeConsumer_def Let_def delete_conv')

section \<open>The deletion pass and a reload as a whole\<close>







section \<open>Two batch destinations on one token\<close>


lemma resolveTokens_fields [simp]:
  "Mode (resolveTokens w d) = Mode d" "Staged (resolveTokens w d) = Staged d"
  "Type (resolveTokens w d) = Type d" "Rest (resolveTokens w d) = Rest d"
  by (simp_all add: resolveTokens_def)

lemmas run_defs = init_def deletionPass_def toDelete_def createOrRecreate_def createNew_def
  registerToken_def newUnit_def remove_def removeConsumer_def removeStorageAndID_def closeUnit_def
  publish_def AddAll_def Add_def inner_def storeInner_def dropKey_def touch_def Lock_def Unlock_def
  emptyMaps_def Let_def

lemma step1:
  assumes "a \<noteq> b"
   and "Mode da \<noteq> StreamMode" "Mode db \<noteq> StreamMode" "\<not> Staged da" "\<not> Staged db"
   and "OnlyTokens (resolveTokens w da) = [T]" "OnlyTokens (resolveTokens w db) = [T]"
   and "factorySucceeds w a (resolveTokens w da)" "factorySucceeds w b (resolveTokens w db)"
  shows "init w [(a, da), (b, db)] emptyService = Inr (twoBatch w a da b db T)"
  using assms
  by (simp add: run_defs emptyService_def twoBatch_def)


lemma step2b:
  assumes "a \<noteq> b"
   and "Mode da \<noteq> StreamMode" "Mode db \<noteq> StreamMode"
   and "OnlyTokens (resolveTokens w da) = [T]" "OnlyTokens (resolveTokens w db) = [T]"
  shows "init w [(b, db)] (twoBatch w a da b db T) =
    Inr ((twoBatch w a da b db T)
      \<lparr>unitsByName := [(b, newUnit (resolveTokens w db) (getHash w b (resolveTokens w db)) 3)],
       loggersUsageByTokenID := [(T, \<lparr>logger = 2, usage = 1\<rparr>)],
       storagesByTokenID := [(T, [(b, 3)])],
       destinationsIDByTokenID := [(T, [(b, True)])],
       closed := [0]\<rparr>)"
  using assms
  by (simp add: run_defs twoBatch_def)

lemma step3b:
  assumes "Mode db \<noteq> StreamMode" and "OnlyTokens (resolveTokens w db) = [T]"
  shows "init w [] ((twoBatch w a da b db T)
      \<lparr>unitsByName := [(b, newUnit (resolveTokens w db) (getHash w b (resolveTokens w db)) 3)],
       loggersUsageByTokenID := [(T, \<lparr>logger = 2, usage = 1\<rparr>)],
       storagesByTokenID := [(T, [(b, 3)])],
       destinationsIDByTokenID := [(T, [(b, True)])],
       closed := [0]\<rparr>) =
    Inr ((twoBatch w a da b db T)
      \<lparr>unitsByName := [], loggersUsageByTokenID := [], consumersByTokenID := [],
       storagesByTokenID := [], destinationsIDByTokenID := [], closed := [0, 2, 3]\<rparr>)"
  using assms
  by (simp add: run_defs twoBatch_def)

lemma step2a:
  assumes "a \<noteq> b"
   and "Mode da \<noteq> StreamMode" "Mode db \<noteq> StreamMode"
   and "OnlyTokens (resolveTokens w da) = [T]" "OnlyTokens (resolveTokens w db) = [T]"
  shows "init w [(a, da)] (twoBatch w a da b db T) =
    Inr ((twoBatch w a da b db T)
      \<lparr>unitsByName := [(a, newUnit (resolveTokens w da) (getHash w a (resolveTokens w da)) 0)],
       loggersUsageByTokenID := [(T, \<lparr>logger = 2, usage = 1\<rparr>)],
       storagesByTokenID := [(T, [(a, 0)])],
       destinationsIDByTokenID := [(T, [(a, True)])],
       closed := [3]\<rparr>)"
  using assms
  by (simp add: run_defs twoBatch_def)

lemma step3a:
  assumes "Mode da \<noteq> StreamMode" and "OnlyTokens (resolveTokens w da) = [T]"
  shows "init w [] ((twoBatch w a da b db T)
      \<lparr>unitsByName := [(a, newUnit (resolveTokens w da) (getHash w a (resolveTokens w da)) 0)],
       loggersUsageByTokenID := [(T, \<lparr>logger = 2, usage = 1\<rparr>)],
       storagesByTokenID := [(T, [(a, 0)])],
       destinationsIDByTokenID := [(T, [(a, True)])],
       closed := [3]\<rparr>) =
    Inr ((twoBatch w a da b db T)
      \<lparr>unitsByName := [], loggersUsageByTokenID := [], consumersByTokenID := [],
       storagesByTokenID := [], destinationsIDByTokenID := [], closed := [3, 2, 0]\<rparr>)"
  using assms
  by (simp add: run_defs twoBatch_def)

text \<open>
  C3.  Two batch destinations \<open>a\<close> and \<open>b\<close>, neither staged, both resolving to the one token
  \<open>T\<close>, are loaded into a fresh service.  Then \<open>T\<close> has exactly one consumer entry, keyed by
  \<open>T\<close> itself, holding the shared logger, and the usage count of \<open>T\<close> is 2.  A reload that keeps
  only one of the two (either one) brings the count to 1 and leaves the logger open and
  registered; a further reload with no destination removes the registry entry and the
  consumer entry and closes the logger, which then occurs exactly once in the log of
  \<open>Close\<close> calls.
\<close>

theorem two_batch_destinations_share_one_logger:
  assumes "a \<noteq> b"
   and "Mode da \<noteq> StreamMode" "Mode db \<noteq> StreamMode" "\<not> Staged da" "\<not> Staged db"
   and "OnlyTokens (resolveTokens w da) = [T]" "OnlyTokens (resolveTokens w db) = [T]"
   and "factorySucceeds w a (resolveTokens w da)" "factorySucceeds w b (resolveTokens w db)"
  shows "\<exists>s lg. init w [(a, da), (b, db)] emptyService = Inr s
     \<and> inner (consumersByTokenID s) T = [(T, lg)]
     \<and> map_of (loggersUsageByTokenID s) T = Some \<lparr>logger = lg, usage = 2\<rparr>
     \<and> lg \<notin> set (closed s)
     \<and> (\<forall>kept \<in> {(a, da), (b, db)}. \<exists>s1. init w [kept] s = Inr s1
          \<and> map_of (loggersUsageByTokenID s1) T = Some \<lparr>logger = lg, usage = 1\<rparr>
          \<and> lg \<notin> set (closed s1) \<and> inner (consumersByTokenID s1) T = [(T, lg)]
          \<and> (\<exists>s2. init w [] s1 = Inr s2
               \<and> map_of (loggersUsageByTokenID s2) T = None \<and> count_list (closed s2) lg = 1
               \<and> map_of (consumersByTokenID s2) T = None))"
proof -
  let ?s = "twoBatch w a da b db T"
  have s: "init w [(a, da), (b, db)] emptyService = Inr ?s"
    using assms by (rule step1)
  have here: "inner (consumersByTokenID ?s) T = [(T, 2)]"
    "map_of (loggersUsageByTokenID ?s) T = Some \<lparr>logger = 2, usage = 2\<rparr>"
    "2 \<notin> set (closed ?s)"
    by (simp_all add: twoBatch_def inner_def)
  have keep_a: "\<exists>s1. init w [(a, da)] ?s = Inr s1
          \<and> map_of (loggersUsageByTokenID s1) T = Some \<lparr>logger = 2, usage = 1\<rparr>
          \<and> 2 \<notin> set (closed s1) \<and> inner (consumersByTokenID s1) T = [(T, 2)]
          \<and> (\<exists>s2. init w [] s1 = Inr s2
               \<and> map_of (loggersUsageByTokenID s2) T = None \<and> count_list (closed s2) 2 = 1
               \<and> map_of (consumersByTokenID s2) T = None)"
  proof -
    let ?s1 = "?s\<lparr>unitsByName := [(a, newUnit (resolveTokens w da) (getHash w a (resolveTokens w da)) 0)],
       loggersUsageByTokenID := [(T, \<lparr>logger = 2, usage = 1\<rparr>)],
       storagesByTokenID := [(T, [(a, 0)])],
       destinationsIDByTokenID := [(T, [(a, True)])],
       closed := [3]\<rparr>"
    let ?s2 = "?s\<lparr>unitsByName := [], loggersUsageByTokenID := [], consumersByTokenID := [],
       storagesByTokenID := [], destinationsIDByTokenID := [], closed := [3, 2, 0]\<rparr>"
    have 1: "init w [(a, da)] ?s = Inr ?s1"
      using assms(1-3) assms(6,7) by (rule step2a)
    have 2: "init w [] ?s1 = Inr ?s2"
      using assms(2) assms(6) by (rule step3a)
    have "map_of (loggersUsageByTokenID ?s1) T = Some \<lparr>logger = 2, usage = 1\<rparr>"
      "2 \<notin> set (closed ?s1)" "inner (consumersByTokenID ?s1) T = [(T, 2)]"
      "map_of (loggersUsageByTokenID ?s2) T = None" "count_list (closed ?s2) 2 = 1"
      "map_of (consumersByTokenID ?s2) T = None"
      by (simp_all add: twoBatch_def inner_def)
    with 1 2 show ?thesis by blast
  qed
  have keep_b: "\<exists>s1. init w [(b, db)] ?s = Inr s1
          \<and> map_of (loggersUsageByTokenID s1) T = Some \<lparr>logger = 2, usage = 1\<rparr>
          \<and> 2 \<notin> set (closed s1) \<and> inner (consumersByTokenID s1) T = [(T, 2)]
          \<and> (\<exists>s2. init w [] s1 = Inr s2
               \<and> map_of (loggersUsageByTokenID s2) T = None \<and> count_list (closed s2) 2 = 1
               \<and> map_of (consumersByTokenID s2) T = None)"
  proof -
    let ?s1 = "?s\<lparr>unitsByName := [(b, newUnit (resolveTokens w db) (getHash w b (resolveTokens w db)) 3)],
       loggersUsageByTokenID := [(T, \<lparr>logger = 2, usage = 1\<rparr>)],
       storagesByTokenID := [(T, [(b, 3)])],
       destinationsIDByTokenID := [(T, [(b, True)])],
       closed := [0]\<rparr>"
    let ?s2 = "?s\<lparr>unitsByName := [], loggersUsageByTokenID := [], consumersByTokenID := [],
       storagesByTokenID := [], destinationsIDByTokenID := [], closed := [0, 2, 3]\<rparr>"
    have 1: "init w [(b, db)] ?s = Inr ?s1"
      using assms(1-3) assms(6,7) by (rule step2b)
    have 2: "init w [] ?s1 = Inr ?s2"
      using assms(3) assms(7) by (rule step3b)
    have "map_of (loggersUsageByTokenID ?s1) T = Some \<lparr>logger = 2, usage = 1\<rparr>"
      "2 \<notin> set (closed ?s1)" "inner (consumersByTokenID ?s1) T = [(T, 2)]"
      "map_of (loggersUsageByTokenID ?s2) T = None" "count_list (closed ?s2) 2 = 1"
      "map_of (consumersByTokenID ?s2) T = None"
      by (simp_all add: twoBatch_def inner_def)
    with 1 2 show ?thesis by blast
  qed
  from s here keep_a keep_b show ?thesis
    by (intro exI [of _ ?s] exI [of _ 2]) simp
qed

theorem two_batch_destinations_share_one_logger_witness:
  "\<exists>s lg. init exampleWorld [(''A'', destination ''batch'' [''T''] False),
                              (''B'', destination ''batch'' [''T''] False)] emptyService = Inr s
     \<and> inner (consumersByTokenID s) ''T'' = [(''T'', lg)]
     \<and> map_of (loggersUsageByTokenID s) ''T'' = Some \<lparr>logger = lg, usage = 2\<rparr>
     \<and> lg \<notin> set (closed s)
     \<and> (\<forall>kept \<in> {(''A'', destination ''batch'' [''T''] False), (''B'', destination ''batch'' [''T''] False)}.
          \<exists>s1. init exampleWorld [kept] s = Inr s1
          \<and> map_of (loggersUsageByTokenID s1) ''T'' = Some \<lparr>logger = lg, usage = 1\<rparr>
          \<and> lg \<notin> set (closed s1) \<and> inner (consumersByTokenID s1) ''T'' = [(''T'', lg)]
          \<and> (\<exists>s2. init exampleWorld [] s1 = Inr s2
               \<and> map_of (loggersUsageByTokenID s2) ''T'' = None \<and> count_list (closed s2) lg = 1
               \<and> map_of (consumersByTokenID s2) ''T'' = None))"
  by (rule two_batch_destinations_share_one_logger)
    (simp_all add: destination_def exampleWorld_def resolveTokens_def StreamMode_def)



section \<open>One round of the second loop\<close>









section \<open>The serialization has no collisions\<close>




section \<open>Parsing failures\<close>

text \<open>
  C7.  When the payload does not parse as a destination mapping, \<open>updateDestinations\<close>
  returns with the service exactly as it was: unit registry, logger registry and the three
  tokenized maps (and everything else in the state) are those from before the call.
\<close>

theorem updateDestinations_parse_failure:
  "parseFromBytes w payload = None \<Longrightarrow> updateDestinations w payload s = Inr s"
  by (simp add: updateDestinations_def)

theorem updateDestinations_parse_failure_witness:
  "parseFromBytes exampleWorld ''{'' = None
   \<and> updateDestinations exampleWorld ''{'' emptyService = Inr emptyService"
  using updateDestinations_parse_failure [of exampleWorld "''{''" emptyService]
  by (simp add: exampleWorld_def)

section \<open>Startup with a config that does not unmarshal\<close>

text \<open>
  C10, as stated: whenever the in-memory config fails to unmarshal, \<open>NewService\<close> returns a
  service and a nil error.  It does not when \<open>server.destinations_reload_sec\<close> is 0: the
  check of the reload interval comes first and returns a nil service with an error.
\<close>

theorem NewService_unmarshal_failure_counterexample:
  "Unmarshal exampleWorld ''destinations: 1'' = None
   \<and> NewService exampleWorld 0 (Some ''destinations: 1'') [] = Inl ReloadSecEmpty"
  by (simp add: NewService_def exampleWorld_def)

text \<open>
  C10, amended: when the reload interval is not 0 and the in-memory config fails to
  unmarshal, \<open>NewService\<close> returns a service with a nil error, and on that service every
  lookup (\<open>GetConsumers\<close>, \<open>GetStorages\<close>, \<open>GetDestinationIDs\<close>, \<open>GetStorageByID\<close>) returns
  empty or false.
\<close>

theorem NewService_unmarshal_failure:
  assumes "reloadSec \<noteq> 0" and "Unmarshal w d = None"
  shows "\<exists>s. NewService w reloadSec (Some d) destinationsSource = Inr s
    \<and> GetConsumers s tokenID = [] \<and> GetStorages s tokenID = []
    \<and> GetDestinationIDs s tokenID = [] \<and> GetStorageByID s ident = (None, False)"
  using assms
  by (simp add: NewService_def emptyService_def GetConsumers_def GetStorages_def
      GetDestinationIDs_def GetStorageByID_def inner_def)

theorem NewService_unmarshal_failure_witness:
  "(30 :: int) \<noteq> 0 \<and> Unmarshal exampleWorld ''destinations: 1'' = None
   \<and> (\<exists>s. NewService exampleWorld 30 (Some ''destinations: 1'') [] = Inr s
     \<and> GetConsumers s ''T'' = [] \<and> GetStorages s ''T'' = []
     \<and> GetDestinationIDs s ''T'' = [] \<and> GetStorageByID s ''A'' = (None, False))"
proof -
  have h: "Unmarshal exampleWorld ''destinations: 1'' = None"
    by (simp add: exampleWorld_def)
  have n: "(30 :: int) \<noteq> 0" by simp
  from NewService_unmarshal_failure [OF n h, of "[]" "''T''" "''A''"] h show ?thesis
    by simp
qed

section \<open>Staged batch destinations and the shared logger\<close>

text \<open>
  C9.  \<open>remove\<close> reads \<open>loggersUsageByTokenID[tokenID]\<close> for every token of a unit without a
  queue and dereferences the result.  A staged batch destination is registered with its
  token ids, but the staged branch of \<open>init\<close> never creates the logger entry.  The first
  reload below registers such a unit; the second, whose snapshot no longer has it, removes
  it and dereferences nil.
\<close>

theorem remove_staged_batch_nil_dereference:
  "\<not> isl (init exampleWorld [(''S'', destination ''batch'' [''T''] True)] emptyService)
   \<and> cycles [(exampleWorld, [(''S'', destination ''batch'' [''T''] True)]), (exampleWorld, [])]
        emptyService = Inl NilPointerDereference"
  by code_simp

text \<open>
  C1.  The claim ends with: no token's maps ever hold a reference to an already closed
  resource.  Here \<open>S\<close> is a staged batch destination on token \<open>T\<close>.  In the second reload
  \<open>A\<close>, a new batch destination on \<open>T\<close>, creates the logger of \<open>T\<close> with usage 1 and puts it
  among the new consumers; then \<open>S\<close>, whose hash changed, is removed, which decrements the
  usage to 0 and closes that logger; the publication at the end of the reload stores the
  closed logger as a consumer of \<open>T\<close>.
\<close>

theorem closed_logger_published:
  "(case cycles
      [(exampleWorld, [(''S'', destination ''batch'' [''T''] True)]),
       (exampleWorld, [(''A'', destination ''batch'' [''T''] False),
                       (''S'', destination ''batch'' [''T'', ''U''] True)])]
      emptyService of
      Inl e \<Rightarrow> False
    | Inr s \<Rightarrow> (\<exists>h \<in> set (GetConsumers s ''T''). h \<in> set (closed s)))"
  by code_simp

section \<open>Writes outside the lock\<close>

text \<open>
  C5.  The unit registry is read under the read lock by \<open>GetStorageByID\<close> and written under
  the write lock by \<open>remove\<close>, but \<open>init\<close> stores a new unit (line 225) after it has released
  the lock, and the same holds for the logger registry (lines 254 and 258).  After one
  reload that creates one batch destination both registries have been written with the
  lock not held.
\<close>

theorem registry_written_without_lock:
  "(case init exampleWorld [(''A'', destination ''batch'' [''T''] False)] emptyService of
      Inl e \<Rightarrow> False
    | Inr s \<Rightarrow> UnitsByName \<in> set (unguarded s) \<and> LoggersUsageByTokenID \<in> set (unguarded s))"
  by code_simp

section \<open>The reference count of the shared loggers\<close>

text \<open>
  C2.  After any sequence of reloads of a fresh service (whatever the snapshots, staged
  batch destinations included, and whatever the collaborators answer), every entry of the
  logger registry has a usage of at least 0 (in fact at least 1).  And in any state, when
  the removal of a unit without a queue decrements the usage of a token to 0, the entry
  of that token is deleted from the registry and its logger is closed.  \<open>usage\<close> is a Go
  \<open>int\<close>; it is taken as an integer without bound, since it never exceeds the number of
  token ids held by the live units.
\<close>


theorem logger_usage_never_negative:
  assumes "cycles cs emptyService = Inr s"
  shows "(\<forall>tokenID lu. map_of (loggersUsageByTokenID s) tokenID = Some lu \<longrightarrow> 0 \<le> usage lu)
    \<and> (\<forall>name (unit :: Unit) tokenID lu s0.
          eventQueue unit = None \<longrightarrow> map_of (loggersUsageByTokenID s0) tokenID = Some lu
          \<longrightarrow> usage lu - 1 = 0
          \<longrightarrow> (\<exists>s1. removeConsumer name unit tokenID s0 = Inr s1
                \<and> map_of (loggersUsageByTokenID s1) tokenID = None
                \<and> logger lu \<in> set (closed s1)))"
proof (intro conjI allI impI)
  have "usagesPositive emptyService"
    by (simp add: usagesPositive_def emptyService_def)
  with assms have pos: "usagesPositive s" by (rule cycles_usagesPositive)
  fix tokenID lu
  assume "map_of (loggersUsageByTokenID s) tokenID = Some lu"
  then have "(tokenID, lu) \<in> set (loggersUsageByTokenID s)" by (rule map_of_SomeD)
  with pos have "0 < usage lu" by (auto simp: usagesPositive_iff)
  then show "0 \<le> usage lu" by simp
next
  fix name and unit :: Unit and tokenID lu and s0 :: Service
  assume "eventQueue unit = None" and "map_of (loggersUsageByTokenID s0) tokenID = Some lu"
    and "usage lu - 1 = 0"
  then show "\<exists>s1. removeConsumer name unit tokenID s0 = Inr s1
      \<and> map_of (loggersUsageByTokenID s1) tokenID = None \<and> logger lu \<in> set (closed s1)"
    by (rule removeConsumer_last_user)
qed

theorem logger_usage_never_negative_witness:
  "cycles [(exampleWorld, [(''A'', destination ''batch'' [''T''] False),
                           (''S'', destination ''batch'' [''T''] True)])] emptyService
     = Inr stagedBesideBatch
   \<and> map_of (loggersUsageByTokenID stagedBesideBatch) ''T'' = Some \<lparr>logger = 2, usage = 1\<rparr>
   \<and> 0 \<le> usage \<lparr>logger = 2, usage = 1\<rparr>
   \<and> (\<exists>s1. removeConsumer ''S'' (newUnit (destination ''batch'' [''T''] True) [] 3) ''T''
              stagedBesideBatch = Inr s1
         \<and> map_of (loggersUsageByTokenID s1) ''T'' = None \<and> 2 \<in> set (closed s1))"
proof -
  have run: "cycles [(exampleWorld, [(''A'', destination ''batch'' [''T''] False),
      (''S'', destination ''batch'' [''T''] True)])] emptyService = Inr stagedBesideBatch"
    by code_simp
  have lu: "map_of (loggersUsageByTokenID stagedBesideBatch) ''T'' = Some \<lparr>logger = 2, usage = 1\<rparr>"
    by code_simp
  have q: "eventQueue (newUnit (destination ''batch'' [''T''] True) [] 3) = None"
    by code_simp
  note t = logger_usage_never_negative [OF run]
  have u: "usage \<lparr>logger = 2, usage = 1\<rparr> - 1 = 0" by simp
  from t lu have "0 \<le> usage \<lparr>logger = 2, usage = 1\<rparr>" by blast
  moreover from t [THEN conjunct2, rule_format, OF q lu u, of "''S''"]
  have "\<exists>s1. removeConsumer ''S'' (newUnit (destination ''batch'' [''T''] True) [] 3) ''T''
              stagedBesideBatch = Inr s1
         \<and> map_of (loggersUsageByTokenID s1) ''T'' = None \<and> 2 \<in> set (closed s1)"
    by simp
  ultimately show ?thesis using run lu by simp
qed

section \<open>Destinations whose tokens do not resolve yet\<close>




section \<open>The hash and the resolved tokens\<close>




section \<open>A second reload with the same snapshot\<close>










end
